theory Spec2Isabelle
  imports Main "HOL-Library.Word"
begin

section \<open>The persistent-mode stdin harness \<open>main_stdin_persist_no_shared.c\<close>\<close>

text \<open>
  The program is a loop that clears a 100-byte stack buffer, reads at most 100 bytes from
  file descriptor 0 into it and hands buffer and byte count to \<open>check_buf\<close>, which calls
  \<open>abort()\<close> when the first three bytes are \<open>abc\<close>.

  A C \<open>char\<close> is modelled by \<^typ>\<open>char\<close> (eight bits), the buffer by a \<^typ>\<open>string\<close>
  whose length is the size of the array, \<open>size_t\<close> by a 64-bit word. Every array access
  is guarded: an access outside the array is the fault \<open>OutOfBounds\<close>, and \<open>abort()\<close> is the
  fault \<open>Abort\<close>. A function that returns hands back the memory it could have written.
\<close>

subsection \<open>Data\<close>

type_synonym size_t = "64 word"

datatype fault = Abort | OutOfBounds

definition MAX_BUF_SIZE :: nat where
  "MAX_BUF_SIZE = 100"

text \<open>The byte \<open>0\<close> that \<open>memset\<close> writes.\<close>

definition NUL :: char where
  "NUL = CHR 0x00"

text \<open>\<open>buf[i]\<close>, with the bound of the array the pointer points into checked.\<close>

definition buf_at :: "string \<Rightarrow> nat \<Rightarrow> fault + char" where
  "buf_at buf i = (if i < length buf then Inr (buf ! i) else Inl OutOfBounds)"

subsection \<open>\<open>check_buf\<close>\<close>

text \<open>
  \<^verbatim>\<open>
  void check_buf(char *buf, size_t buf_len) {
      if(buf_len > 0 && buf[0] == 'a') {
          if(buf_len > 1 && buf[1] == 'b') {
              if(buf_len > 2 && buf[2] == 'c') {
                  abort();
              }
          }
      }
  }
  \<close>
  \<open>&&\<close> evaluates its right operand only when the left one holds, so \<open>buf[i]\<close> is read only
  after \<open>buf_len > i\<close> was found true. The result is the buffer as the call leaves it.
\<close>

definition check_buf :: "string \<Rightarrow> size_t \<Rightarrow> fault + string" where
  "check_buf buf buf_len =
     (if 0 < buf_len then
        (case buf_at buf 0 of
           Inl e \<Rightarrow> Inl e
         | Inr b0 \<Rightarrow>
             if b0 = CHR ''a'' then
               (if 1 < buf_len then
                  (case buf_at buf 1 of
                     Inl e \<Rightarrow> Inl e
                   | Inr b1 \<Rightarrow>
                       if b1 = CHR ''b'' then
                         (if 2 < buf_len then
                            (case buf_at buf 2 of
                               Inl e \<Rightarrow> Inl e
                             | Inr b2 \<Rightarrow>
                                 if b2 = CHR ''c'' then Inl Abort else Inr buf)
                          else Inr buf)
                       else Inr buf)
                else Inr buf)
             else Inr buf)
      else Inr buf)"

subsection \<open>The C library calls made by \<open>main\<close>\<close>

text \<open>
  \<open>memset(s, c, n)\<close> stores \<open>c\<close> in the first \<open>n\<close> bytes of \<open>s\<close>; writing past the end of
  the array is a fault.
\<close>

definition memset :: "string \<Rightarrow> char \<Rightarrow> nat \<Rightarrow> fault + string" where
  "memset s c n =
     (if n \<le> length s then Inr (replicate n c @ drop n s) else Inl OutOfBounds)"

text \<open>
  Standard input is the list of what the successive calls of \<open>read(0, ...)\<close> find: either
  the bytes the descriptor has ready (none at end of file) or a failure. Past the end of
  the list every call finds end of file. \<open>read(0, buf, count)\<close> transfers at most \<open>count\<close>
  of the ready bytes to the start of \<open>buf\<close> and returns their number; a failed call
  transfers nothing and returns \<open>-1\<close>. The result is the return value, the buffer and the
  rest of the input.
\<close>

datatype read_event = Bytes string | Failure

definition read :: "read_event list \<Rightarrow> string \<Rightarrow> nat \<Rightarrow> fault + (int \<times> string \<times> read_event list)" where
  "read fd0 buf count =
     (case fd0 of
        [] \<Rightarrow> Inr (0, buf, [])
      | Failure # rest \<Rightarrow> Inr (- 1, buf, rest)
      | Bytes bs # rest \<Rightarrow>
          (let got = take count bs in
           if length got \<le> length buf
           then Inr (int (length got), got @ drop (length got) buf, rest)
           else Inl OutOfBounds))"

subsection \<open>The loop driver\<close>

text \<open>
  Modelled from the spec: \<open>__AFL_INIT\<close> and \<open>__AFL_LOOP\<close> are macros of the fuzzing
  engine's compiler and are not defined in this repository. The spec describes
  \<open>__AFL_LOOP(1000)\<close> as the persistent-mode loop driver, by which one process serves
  many test cases, bounded by 1000 iterations. The driver's state is the number of
  iterations it has granted and the number of test cases the engine still offers;
  \<open>__AFL_LOOP(max_cnt)\<close> grants an iteration while fewer than \<open>max_cnt\<close> were granted and
  a test case is on offer. Neither macro touches the program's buffer or its input.
\<close>

record afl_state =
  cycles :: nat
  offered :: nat

text \<open>
  Modelled from the spec: \<open>__AFL_INIT()\<close>, absent from the repository; the spec gives it
  no effect on the program, and it leaves the driver as it is.
\<close>

definition AFL_INIT :: "afl_state \<Rightarrow> afl_state" where
  "AFL_INIT d = d"

text \<open>
  Modelled from the spec: \<open>__AFL_LOOP(max_cnt)\<close>, absent from the repository. It answers
  whether another iteration is to run, and counts the iteration it grants.
\<close>

definition AFL_LOOP :: "nat \<Rightarrow> afl_state \<Rightarrow> bool \<times> afl_state" where
  "AFL_LOOP max_cnt d =
     (if cycles d < max_cnt \<and> 0 < offered d
      then (True, d\<lparr>cycles := Suc (cycles d), offered := offered d - 1\<rparr>)
      else (False, d))"

subsection \<open>\<open>main\<close>\<close>

text \<open>
  \<^verbatim>\<open>
  int main() {
      char input_buf[MAX_BUF_SIZE];
      __AFL_INIT();
      while (__AFL_LOOP(1000)) {
          memset(input_buf, 0, MAX_BUF_SIZE);
          size_t len = read(0, input_buf, 100);
          check_buf(input_buf, len);
      }
      return 0;
  }
  \<close>
  The state of \<open>main\<close> is its array, the driver and what is left of standard input.
\<close>

record state =
  input_buf :: string
  afl :: afl_state
  stdin :: "read_event list"

text \<open>
  The two statements of the loop body that come before the call of \<open>check_buf\<close>: the
  result is the value \<open>read\<close> returned, the buffer and the remaining input.
\<close>

definition fill_buf :: "state \<Rightarrow> fault + (int \<times> string \<times> read_event list)" where
  "fill_buf s =
     (case memset (input_buf s) NUL MAX_BUF_SIZE of
        Inl e \<Rightarrow> Inl e
      | Inr zeroed \<Rightarrow> read (stdin s) zeroed 100)"

text \<open>
  The loop body. The \<open>int\<close> that \<open>read\<close> returns is converted to \<open>size_t\<close> by the
  initialisation of \<open>len\<close>, so \<open>-1\<close> becomes \<open>2^64 - 1\<close>.
\<close>

definition loop_body :: "state \<Rightarrow> fault + state" where
  "loop_body s =
     (case fill_buf s of
        Inl e \<Rightarrow> Inl e
      | Inr (ret, buf, rest) \<Rightarrow>
          (let len = (word_of_int ret :: size_t) in
           case check_buf buf len of
             Inl e \<Rightarrow> Inl e
           | Inr buf' \<Rightarrow> Inr (s\<lparr>input_buf := buf', stdin := rest\<rparr>)))"

function main_loop :: "state \<Rightarrow> fault + state" where
  "main_loop s =
     (case AFL_LOOP 1000 (afl s) of
        (go, d) \<Rightarrow>
          if go then
            (case loop_body (s\<lparr>afl := d\<rparr>) of
               Inl e \<Rightarrow> Inl e
             | Inr s' \<Rightarrow> main_loop s')
          else Inr (s\<lparr>afl := d\<rparr>))"
  by pat_completeness auto
termination
proof (relation "measure (\<lambda>s. offered (afl s))")
  show "wf (measure (\<lambda>s. offered (afl s)))"
    by simp
next
  fix s :: state and go d s'
  assume drv: "(go, d) = AFL_LOOP 1000 (afl s)" and go: go
    and body: "loop_body (s\<lparr>afl := d\<rparr>) = Inr s'"
  from drv go have "offered d < offered (afl s)"
    by (auto simp: AFL_LOOP_def split: if_splits)
  moreover from body have "afl s' = d"
    by (auto simp: loop_body_def split: sum.splits prod.splits)
  ultimately show "(s', s) \<in> measure (\<lambda>s. offered (afl s))"
    by simp
qed

declare main_loop.simps [simp del]

text \<open>
  \<open>main\<close>: the array starts with whatever the stack holds, the loop runs, and the
  function returns 0. The result is the exit status and the final state.
\<close>

definition main :: "(nat \<Rightarrow> char) \<Rightarrow> afl_state \<Rightarrow> read_event list \<Rightarrow> fault + (int \<times> state)" where
  "main stack d fd0 =
     (case main_loop \<lparr>input_buf = map stack [0..<MAX_BUF_SIZE], afl = AFL_INIT d, stdin = fd0\<rparr> of
        Inl e \<Rightarrow> Inl e
      | Inr s \<Rightarrow> Inr (0, s))"

subsection \<open>Notions used to state the properties\<close>

text \<open>
  The bytes one call \<open>read(0, input_buf, 100)\<close> receives when it finds \<open>ev\<close>, the bytes the
  next call receives from an input, and the trigger: the received bytes begin with \<open>abc\<close>.
\<close>

definition received :: "read_event \<Rightarrow> string" where
  "received ev = (case ev of Bytes bs \<Rightarrow> take 100 bs | Failure \<Rightarrow> [])"

definition next_bytes :: "read_event list \<Rightarrow> string" where
  "next_bytes fd0 = (case fd0 of [] \<Rightarrow> [] | ev # _ \<Rightarrow> received ev)"

definition starts_abc :: "read_event \<Rightarrow> bool" where
  "starts_abc ev = (take 3 (received ev) = ''abc'')"

section \<open>Auxiliary facts\<close>

lemma size_t_less:
  "(0 < (n::size_t)) = (0 < unat n)"
  "(1 < n) = (1 < unat n)"
  "(2 < n) = (2 < unat n)"
  "(n < 3) = (unat n < 3)"
  "(3 \<le> n) = (3 \<le> unat n)"
  by (simp_all add: word_less_nat_alt word_le_nat_alt)

lemma unat_len: "k \<le> 100 \<Longrightarrow> unat (word_of_int (int k) :: size_t) = k"
  by (simp add: unat_of_nat)

lemma take3_iff:
  "take 3 xs = [a, b, c] \<longleftrightarrow> 3 \<le> length xs \<and> xs ! 0 = a \<and> xs ! 1 = b \<and> xs ! 2 = c"
  by (cases xs; cases "tl xs"; cases "tl (tl xs)") (auto simp: numeral_3_eq_3)

subsection \<open>\<open>check_buf\<close>\<close>

lemma check_buf_cases:
  assumes "3 \<le> length buf \<or> unat buf_len \<le> length buf"
  shows "check_buf buf buf_len =
    (if 3 \<le> unat buf_len \<and> buf ! 0 = CHR ''a'' \<and> buf ! 1 = CHR ''b'' \<and> buf ! 2 = CHR ''c''
     then Inl Abort else Inr buf)"
  using assms by (auto simp add: check_buf_def buf_at_def size_t_less)

lemma check_buf_Inr: "check_buf buf buf_len = Inr buf' \<Longrightarrow> buf' = buf"
  by (auto simp: check_buf_def split: if_splits sum.splits)

lemma check_buf_short: "unat buf_len < 3 \<Longrightarrow> check_buf buf buf_len \<noteq> Inl Abort"
  by (auto simp: check_buf_def buf_at_def size_t_less split: sum.splits)

lemma check_buf_in_bounds: "3 \<le> length buf \<Longrightarrow> check_buf buf buf_len \<noteq> Inl OutOfBounds"
  by (auto simp: check_buf_def buf_at_def split: sum.splits)

lemma check_buf_zeros: "check_buf (replicate 100 NUL) n = Inr (replicate 100 NUL)"
  by (simp add: check_buf_def buf_at_def NUL_def)

lemma check_buf_zeroed:
  "100 \<le> length buf \<Longrightarrow>
     check_buf (replicate 100 NUL @ drop 100 buf) n = Inr (replicate 100 NUL @ drop 100 buf)"
  by (auto simp add: check_buf_def buf_at_def NUL_def nth_append)

lemma check_buf_take:
  "(check_buf (take (min (unat n) 3) buf) n = Inl f) = (check_buf buf n = Inl f)"
  by (auto simp: check_buf_def buf_at_def size_t_less split: sum.splits if_splits)

subsection \<open>One iteration\<close>

lemma fill_buf_val:
  assumes "length (input_buf s) = MAX_BUF_SIZE"
  shows "fill_buf s =
    (case stdin s of
       [] \<Rightarrow> Inr (0, replicate 100 NUL, [])
     | Failure # rest \<Rightarrow> Inr (- 1, replicate 100 NUL, rest)
     | Bytes bs # rest \<Rightarrow>
         Inr (int (length (take 100 bs)),
              take 100 bs @ replicate (100 - length (take 100 bs)) NUL, rest))"
  using assms
  by (auto simp: fill_buf_def memset_def read_def MAX_BUF_SIZE_def Let_def
      split: list.splits read_event.splits)

lemma loop_body_val:
  assumes "length (input_buf s) = MAX_BUF_SIZE"
  shows "loop_body s =
    (if (\<exists>ev rest. stdin s = ev # rest \<and> starts_abc ev) then Inl Abort
     else Inr (s\<lparr>input_buf :=
                   next_bytes (stdin s) @ replicate (100 - length (next_bytes (stdin s))) NUL,
                 stdin := tl (stdin s)\<rparr>))"
proof (cases "stdin s")
  case Nil
  then show ?thesis using assms
    by (simp add: loop_body_def fill_buf_val check_buf_zeros next_bytes_def)
next
  case (Cons ev rest)
  show ?thesis
  proof (cases ev)
    case Failure
    then show ?thesis using assms Cons
      by (simp add: loop_body_def fill_buf_val check_buf_zeros next_bytes_def received_def
          starts_abc_def)
  next
    case (Bytes bs)
    define got where "got = take 100 bs"
    have len: "length got \<le> 100" by (simp add: got_def)
    have u: "unat (word_of_int (int (length got)) :: size_t) = length got"
      using len by (rule unat_len)
    let ?buf = "got @ replicate (100 - length got) NUL"
    have lb: "3 \<le> length ?buf" using len by simp
    have "check_buf ?buf (word_of_int (int (length got))) =
      (if take 3 got = ''abc'' then Inl Abort else Inr ?buf)"
      unfolding check_buf_cases [OF disjI1 [OF lb]] u take3_iff
      by (auto simp: nth_append)
    then show ?thesis using assms Cons Bytes
      by (simp add: loop_body_def fill_buf_val starts_abc_def next_bytes_def received_def got_def)
  qed
qed

lemma loop_body_afl: "loop_body s = Inr s' \<Longrightarrow> afl s' = afl s"
  by (auto simp: loop_body_def split: sum.splits prod.splits)

lemma loop_body_length:
  "length (input_buf s) = MAX_BUF_SIZE \<Longrightarrow> loop_body s = Inr s' \<Longrightarrow>
     length (input_buf s') = MAX_BUF_SIZE"
  by (auto simp: loop_body_val MAX_BUF_SIZE_def next_bytes_def received_def
      split: if_splits list.splits read_event.splits)

lemma loop_body_stdin:
  "length (input_buf s) = MAX_BUF_SIZE \<Longrightarrow> loop_body s = Inr s' \<Longrightarrow> stdin s' = tl (stdin s)"
  by (auto simp: loop_body_val split: if_splits)

lemma loop_body_in_bounds:
  "length (input_buf s) = MAX_BUF_SIZE \<Longrightarrow> loop_body s \<noteq> Inl OutOfBounds"
  by (simp add: loop_body_val)

lemma loop_body_failure_eq:
  "loop_body (s\<lparr>stdin := Failure # rest\<rparr>) = loop_body (s\<lparr>stdin := Bytes [] # rest\<rparr>)"
  by (simp add: loop_body_def fill_buf_def memset_def read_def MAX_BUF_SIZE_def check_buf_zeroed)

subsection \<open>The loop\<close>

lemma main_loop_in_bounds:
  "length (input_buf s) = MAX_BUF_SIZE \<Longrightarrow> main_loop s \<noteq> Inl OutOfBounds"
proof (induction s rule: main_loop.induct)
  case (1 s)
  obtain go d where drv: "AFL_LOOP 1000 (afl s) = (go, d)"
    by (cases "AFL_LOOP 1000 (afl s)")
  show ?case
  proof (cases go)
    case False
    with drv show ?thesis by (simp add: main_loop.simps [of s])
  next
    case True
    have len: "length (input_buf (s\<lparr>afl := d\<rparr>)) = MAX_BUF_SIZE"
      using "1.prems" by simp
    show ?thesis
    proof (cases "loop_body (s\<lparr>afl := d\<rparr>)")
      case (Inl e)
      with loop_body_in_bounds [OF len] drv True show ?thesis
        by (auto simp add: main_loop.simps [of s])
    next
      case (Inr s')
      from loop_body_length [OF len Inr] have "main_loop s' \<noteq> Inl OutOfBounds"
        using "1.IH" [OF drv [symmetric] True Inr] by simp
      with drv True Inr show ?thesis by (simp add: main_loop.simps [of s])
    qed
  qed
qed

lemma main_loop_returns:
  "length (input_buf s) = MAX_BUF_SIZE \<Longrightarrow> \<forall>ev \<in> set (stdin s). \<not> starts_abc ev \<Longrightarrow>
     \<exists>s'. main_loop s = Inr s'"
proof (induction s rule: main_loop.induct)
  case (1 s)
  obtain go d where drv: "AFL_LOOP 1000 (afl s) = (go, d)"
    by (cases "AFL_LOOP 1000 (afl s)")
  show ?case
  proof (cases go)
    case False
    with drv show ?thesis by (simp add: main_loop.simps [of s])
  next
    case True
    let ?s = "s\<lparr>afl := d\<rparr>"
    have len: "length (input_buf ?s) = MAX_BUF_SIZE"
      using "1.prems" by simp
    have "\<not> (\<exists>ev rest. stdin ?s = ev # rest \<and> starts_abc ev)"
      using "1.prems"(2) by auto
    then obtain s' where body: "loop_body ?s = Inr s'"
      by (simp add: loop_body_val [OF len])
    have "set (stdin s') \<subseteq> set (stdin s)"
      using loop_body_stdin [OF len body] by (cases "stdin s") auto
    with "1.prems"(2) have "\<forall>ev \<in> set (stdin s'). \<not> starts_abc ev"
      by blast
    with "1.IH" [OF drv [symmetric] True body] loop_body_length [OF len body]
    obtain s'' where "main_loop s' = Inr s''"
      by blast
    with drv True body show ?thesis by (simp add: main_loop.simps [of s])
  qed
qed

lemma main_loop_cycles:
  "main_loop s = Inr s' \<Longrightarrow>
     cycles (afl s') = cycles (afl s) + min (offered (afl s)) (1000 - cycles (afl s))
     \<and> \<not> fst (AFL_LOOP 1000 (afl s'))"
proof (induction s rule: main_loop.induct)
  case (1 s)
  obtain go d where drv: "AFL_LOOP 1000 (afl s) = (go, d)"
    by (cases "AFL_LOOP 1000 (afl s)")
  show ?case
  proof (cases go)
    case False
    with drv "1.prems" have "s' = s\<lparr>afl := d\<rparr>"
      by (simp add: main_loop.simps [of s])
    with drv False show ?thesis
      by (auto simp: AFL_LOOP_def split: if_splits)
  next
    case True
    from "1.prems" drv True obtain s1 where body: "loop_body (s\<lparr>afl := d\<rparr>) = Inr s1"
      and rest: "main_loop s1 = Inr s'"
      by (auto simp add: main_loop.simps [of s] split: sum.splits)
    have a: "afl s1 = d"
      using loop_body_afl [OF body] by simp
    from "1.IH" [OF drv [symmetric] True body rest] a
    have "cycles (afl s') = cycles d + min (offered d) (1000 - cycles d)"
      and "\<not> fst (AFL_LOOP 1000 (afl s'))"
      by simp_all
    moreover from drv True
    have "cycles d = Suc (cycles (afl s))" "offered (afl s) = Suc (offered d)"
      "cycles (afl s) < 1000"
      by (auto simp: AFL_LOOP_def split: if_splits)
    ultimately show ?thesis by auto
  qed
qed

section \<open>The claims\<close>

subsection \<open>\<open>check_buf\<close>\<close>

text \<open>
  C1. \<open>check_buf(buf, buf_len)\<close> aborts if and only if \<open>buf_len\<close> is at least 3 and the
  bytes at indices 0, 1 and 2 are \<open>a\<close>, \<open>b\<close> and \<open>c\<close>; for every other content and length
  it returns and leaves the buffer as it was. The buffer is one the call may read: it has
  at least three bytes, or at least \<open>buf_len\<close> bytes.
\<close>

theorem check_buf_abort_iff:
  assumes "3 \<le> length buf \<or> unat buf_len \<le> length buf"
  shows "(check_buf buf buf_len = Inl Abort \<longleftrightarrow>
           3 \<le> buf_len \<and> buf ! 0 = CHR ''a'' \<and> buf ! 1 = CHR ''b'' \<and> buf ! 2 = CHR ''c'')
       \<and> (check_buf buf buf_len \<noteq> Inl Abort \<longrightarrow> check_buf buf buf_len = Inr buf)"
  by (simp add: check_buf_cases [OF assms] size_t_less)

theorem check_buf_abort_iff_witness:
  "(3 \<le> length ''abcd'' \<or> unat (4 :: size_t) \<le> length ''abcd'')
   \<and> check_buf ''abcd'' 4 = Inl Abort
   \<and> (3 \<le> length ''abx'' \<or> unat (18446744073709551615 :: size_t) \<le> length ''abx'')
   \<and> check_buf ''abx'' 18446744073709551615 = Inr ''abx''"
  using check_buf_abort_iff [of "''abcd''" 4]
    check_buf_abort_iff [of "''abx''" 18446744073709551615]
  by simp

text \<open>
  C2. With \<open>buf_len\<close> equal to 0, 1 or 2 the call never aborts, whatever the buffer holds;
  on a buffer of at least \<open>buf_len\<close> bytes it returns normally with the buffer unchanged.
\<close>

theorem check_buf_short_returns:
  assumes "buf_len \<in> {0, 1, 2}"
  shows "check_buf buf buf_len \<noteq> Inl Abort
       \<and> (unat buf_len \<le> length buf \<longrightarrow> check_buf buf buf_len = Inr buf)"
proof -
  from assms have short: "unat buf_len < 3"
    by auto
  then show ?thesis
    using check_buf_cases [of buf buf_len] check_buf_short [of buf_len buf] by auto
qed

theorem check_buf_short_returns_witness:
  "(2 :: size_t) \<in> {0, 1, 2} \<and> unat (2 :: size_t) \<le> length ''ab''
   \<and> check_buf ''ab'' 2 = Inr ''ab''"
  using check_buf_short_returns [of 2 "''ab''"] by simp

text \<open>
  C7. \<open>check_buf\<close> has no effect but the possible abort: whenever it returns, the buffer
  is exactly the buffer it was given.
\<close>

theorem check_buf_frame:
  assumes "check_buf buf buf_len = Inr buf'"
  shows "buf' = buf"
  using assms by (rule check_buf_Inr)

theorem check_buf_frame_witness:
  "check_buf ''abx'' 3 = Inr ''abx'' \<and> ''abx'' = ''abx''"
proof -
  have ret: "check_buf ''abx'' 3 = Inr ''abx''"
    by (simp add: check_buf_def buf_at_def)
  from check_buf_frame [OF ret] ret show ?thesis
    by simp
qed

text \<open>
  C9. \<open>check_buf\<close> reads no index beyond 2: on every buffer of at least three bytes, so
  on the 100-byte array of \<open>main\<close>, and for every \<open>buf_len\<close>, also \<open>(size_t)-1\<close>, no access
  is out of bounds.
\<close>

theorem check_buf_never_out_of_bounds:
  assumes "3 \<le> length buf"
  shows "check_buf buf buf_len \<noteq> Inl OutOfBounds"
  using assms by (rule check_buf_in_bounds)

theorem check_buf_never_out_of_bounds_witness:
  "3 \<le> length ''abc'' \<and> check_buf ''abc'' (- 1) \<noteq> Inl OutOfBounds
   \<and> 3 \<le> length (replicate MAX_BUF_SIZE NUL)
   \<and> check_buf (replicate MAX_BUF_SIZE NUL) (- 1) \<noteq> Inl OutOfBounds"
  using check_buf_never_out_of_bounds [of "''abc''" "- 1"]
    check_buf_never_out_of_bounds [of "replicate MAX_BUF_SIZE NUL" "- 1"]
  by (simp add: MAX_BUF_SIZE_def)

text \<open>
  C10. The outcome of \<open>check_buf\<close> depends only on \<open>buf_len\<close> and the first
  \<open>min(buf_len, 3)\<close> bytes: two buffers that agree there abort together and return
  together.
\<close>

theorem check_buf_prefix_only:
  assumes "take (min (unat buf_len) 3) buf1 = take (min (unat buf_len) 3) buf2"
  shows "(check_buf buf1 buf_len = Inl Abort) = (check_buf buf2 buf_len = Inl Abort)
       \<and> (check_buf buf1 buf_len = Inr buf1) = (check_buf buf2 buf_len = Inr buf2)"
proof -
  have flt: "(check_buf buf1 buf_len = Inl f) = (check_buf buf2 buf_len = Inl f)" for f
    using check_buf_take [of buf_len buf1 f] check_buf_take [of buf_len buf2 f] assms
    by simp
  have ret: "(check_buf b buf_len = Inr b) = (\<forall>f. check_buf b buf_len \<noteq> Inl f)" for b
    using check_buf_Inr [of b buf_len] by (cases "check_buf b buf_len") auto
  show ?thesis
    by (simp add: flt ret)
qed

theorem check_buf_prefix_only_witness:
  "take (min (unat (2 :: size_t)) 3) ''abXYZ'' = take (min (unat (2 :: size_t)) 3) ''abc''
   \<and> (check_buf ''abXYZ'' 2 = Inl Abort) = (check_buf ''abc'' 2 = Inl Abort)
   \<and> (check_buf ''abXYZ'' 2 = Inr ''abXYZ'') = (check_buf ''abc'' 2 = Inr ''abc'')"
  using check_buf_prefix_only [of 2 "''abXYZ''" "''abc''"] by simp

subsection \<open>One iteration of the loop\<close>

text \<open>
  C5. Each iteration first overwrites the whole 100-byte array with zeros, so the buffer
  handed to \<open>check_buf\<close> holds the bytes just read followed by zeros, and nothing of an
  earlier iteration: the iteration is the same whatever the array held before.
\<close>

theorem buffer_cleared_each_iteration:
  assumes "length (input_buf s) = MAX_BUF_SIZE" and "length old = MAX_BUF_SIZE"
  shows "memset (input_buf s) NUL MAX_BUF_SIZE = Inr (replicate MAX_BUF_SIZE NUL)
       \<and> (\<exists>ret rest. fill_buf s =
            Inr (ret, next_bytes (stdin s)
                        @ replicate (MAX_BUF_SIZE - length (next_bytes (stdin s))) NUL, rest))
       \<and> loop_body (s\<lparr>input_buf := old\<rparr>) = loop_body s"
proof -
  have "memset (input_buf s) NUL MAX_BUF_SIZE = Inr (replicate MAX_BUF_SIZE NUL)"
    using assms(1) by (simp add: memset_def)
  moreover have "\<exists>ret rest. fill_buf s =
      Inr (ret, next_bytes (stdin s)
                  @ replicate (MAX_BUF_SIZE - length (next_bytes (stdin s))) NUL, rest)"
    using assms(1)
    by (auto simp: fill_buf_val next_bytes_def received_def MAX_BUF_SIZE_def
        split: list.splits read_event.splits)
  moreover have "loop_body (s\<lparr>input_buf := old\<rparr>) = loop_body s"
    using assms by (simp add: loop_body_val)
  ultimately show ?thesis
    by blast
qed

theorem buffer_cleared_each_iteration_witness:
  "length (input_buf \<lparr>input_buf = replicate 100 CHR ''c'', afl = \<lparr>cycles = 1, offered = 1\<rparr>,
                       stdin = [Bytes ''ab'']\<rparr>) = MAX_BUF_SIZE
   \<and> length (''abc'' @ replicate 97 CHR ''x'') = MAX_BUF_SIZE
   \<and> memset (replicate 100 CHR ''c'') NUL MAX_BUF_SIZE = Inr (replicate MAX_BUF_SIZE NUL)
   \<and> (\<exists>ret rest.
        fill_buf \<lparr>input_buf = replicate 100 CHR ''c'', afl = \<lparr>cycles = 1, offered = 1\<rparr>,
                  stdin = [Bytes ''ab'']\<rparr>
          = Inr (ret, ''ab'' @ replicate 98 NUL, rest))
   \<and> loop_body \<lparr>input_buf = ''abc'' @ replicate 97 CHR ''x'',
                  afl = \<lparr>cycles = 1, offered = 1\<rparr>, stdin = [Bytes ''ab'']\<rparr>
       = loop_body \<lparr>input_buf = replicate 100 CHR ''c'', afl = \<lparr>cycles = 1, offered = 1\<rparr>,
                     stdin = [Bytes ''ab'']\<rparr>"
  using buffer_cleared_each_iteration
    [of "\<lparr>input_buf = replicate 100 CHR ''c'', afl = \<lparr>cycles = 1, offered = 1\<rparr>,
           stdin = [Bytes ''ab'']\<rparr>" "''abc'' @ replicate 97 CHR ''x''"]
  by (simp add: MAX_BUF_SIZE_def next_bytes_def received_def)

text \<open>
  C6. In every iteration \<open>read\<close> is asked for at most 100 bytes, the size of the array:
  the call stays inside the array, stores at most 100 bytes (it returns the number of
  bytes stored, or \<open>-1\<close>), and the array keeps its 100 bytes.
\<close>

theorem stored_bytes_within_capacity:
  assumes "length (input_buf s) = MAX_BUF_SIZE"
  shows "\<exists>ret buf rest. fill_buf s = Inr (ret, buf, rest)
           \<and> ret \<le> int MAX_BUF_SIZE \<and> length buf = MAX_BUF_SIZE
           \<and> (ret = - 1 \<or> ret = int (length (next_bytes (stdin s))))
           \<and> length (next_bytes (stdin s)) \<le> MAX_BUF_SIZE"
  using assms
  by (auto simp: fill_buf_val next_bytes_def received_def MAX_BUF_SIZE_def
      split: list.splits read_event.splits)

theorem stored_bytes_within_capacity_witness:
  "length (input_buf \<lparr>input_buf = replicate 100 CHR ''c'', afl = \<lparr>cycles = 1, offered = 1\<rparr>,
                       stdin = [Bytes (replicate 150 CHR ''a'')]\<rparr>) = MAX_BUF_SIZE
   \<and> (\<exists>ret buf rest.
        fill_buf \<lparr>input_buf = replicate 100 CHR ''c'', afl = \<lparr>cycles = 1, offered = 1\<rparr>,
                  stdin = [Bytes (replicate 150 CHR ''a'')]\<rparr> = Inr (ret, buf, rest)
        \<and> ret \<le> 100 \<and> length buf = 100)"
  using stored_bytes_within_capacity
    [of "\<lparr>input_buf = replicate 100 CHR ''c'', afl = \<lparr>cycles = 1, offered = 1\<rparr>,
           stdin = [Bytes (replicate 150 CHR ''a'')]\<rparr>"]
  by (auto simp add: MAX_BUF_SIZE_def)

text \<open>
  C4. An iteration in which \<open>read\<close> fails is the same as one in which it returns 0: both
  end in the same state, and on the 100-byte array neither aborts, the array is all
  zeros afterwards and the loop goes on with the rest of the input.
\<close>

theorem read_failure_as_empty_read:
  "loop_body (s\<lparr>stdin := Failure # rest\<rparr>) = loop_body (s\<lparr>stdin := Bytes [] # rest\<rparr>)
   \<and> (length (input_buf s) = MAX_BUF_SIZE \<longrightarrow>
        loop_body (s\<lparr>stdin := Failure # rest\<rparr>)
          = Inr (s\<lparr>input_buf := replicate MAX_BUF_SIZE NUL, stdin := rest\<rparr>))"
  by (simp add: loop_body_failure_eq [symmetric] loop_body_val next_bytes_def received_def
      starts_abc_def MAX_BUF_SIZE_def)

theorem read_failure_as_empty_read_witness:
  "length (input_buf \<lparr>input_buf = replicate 100 CHR ''a'', afl = \<lparr>cycles = 1, offered = 1\<rparr>,
                       stdin = []\<rparr>) = MAX_BUF_SIZE
   \<and> loop_body \<lparr>input_buf = replicate 100 CHR ''a'', afl = \<lparr>cycles = 1, offered = 1\<rparr>,
                  stdin = [Bytes [], Bytes ''abc'']\<rparr>
     = Inr \<lparr>input_buf = replicate 100 NUL, afl = \<lparr>cycles = 1, offered = 1\<rparr>,
            stdin = [Bytes ''abc'']\<rparr>"
  using read_failure_as_empty_read
    [where s = "\<lparr>input_buf = replicate 100 CHR ''a'', afl = \<lparr>cycles = 1, offered = 1\<rparr>,
                  stdin = []\<rparr>" and rest = "[Bytes ''abc'']"]
  by (auto simp add: MAX_BUF_SIZE_def)

subsection \<open>The whole run\<close>

text \<open>
  C3. When no call of \<open>read\<close> receives bytes that begin with \<open>abc\<close>, \<open>main\<close> runs to its
  end and returns 0, whatever the stack held and whatever the driver grants.
\<close>

theorem main_exits_normally:
  assumes "\<forall>ev \<in> set fd0. \<not> starts_abc ev"
  shows "\<exists>s. main stack d fd0 = Inr (0, s)"
proof -
  let ?s0 = "\<lparr>input_buf = map stack [0..<MAX_BUF_SIZE], afl = AFL_INIT d, stdin = fd0\<rparr>"
  have "length (input_buf ?s0) = MAX_BUF_SIZE"
    by simp
  moreover have "\<forall>ev \<in> set (stdin ?s0). \<not> starts_abc ev"
    using assms by simp
  ultimately obtain s where "main_loop ?s0 = Inr s"
    using main_loop_returns by blast
  then show ?thesis
    by (simp add: main_def)
qed

theorem main_exits_normally_witness:
  "\<not> starts_abc (Bytes ''abx'') \<and> \<not> starts_abc Failure \<and> \<not> starts_abc (Bytes ''ab'')
   \<and> (\<exists>s. main (\<lambda>i. CHR ''a'') \<lparr>cycles = 0, offered = 3\<rparr> [Bytes ''abx'', Failure, Bytes ''ab'']
            = Inr (0, s))"
proof -
  have h: "\<forall>ev \<in> set [Bytes ''abx'', Failure, Bytes ''ab'']. \<not> starts_abc ev"
    by (simp add: starts_abc_def received_def)
  from main_exits_normally [OF h] h show ?thesis
    by simp
qed

text \<open>
  C8, as the spec states it: the loop ends after a bounded number of iterations or when
  the input is exhausted. The second half fails: with standard input exhausted before
  the first \<open>read\<close> and a driver that offers three test cases, the loop runs all three
  iterations.
\<close>

theorem loop_runs_on_after_end_of_input:
  "main_loop \<lparr>input_buf = replicate 100 NUL, afl = \<lparr>cycles = 0, offered = 3\<rparr>, stdin = []\<rparr>
     = Inr \<lparr>input_buf = replicate 100 NUL, afl = \<lparr>cycles = 3, offered = 0\<rparr>, stdin = []\<rparr>"
  by (simp add: main_loop.simps AFL_LOOP_def loop_body_val MAX_BUF_SIZE_def next_bytes_def)

text \<open>
  C8, amended. The loop always ends, and inside the array: it aborts in \<open>check_buf\<close>, or
  it ends normally when \<open>__AFL_LOOP(1000)\<close> refuses, which is after exactly as many
  iterations as the driver had on offer, and never more than 1000 granted in all. The
  end of the input does not end the loop: with the input exhausted the loop still ends
  normally, after that same number of iterations.
\<close>

theorem main_loop_bounded:
  assumes "length (input_buf s) = MAX_BUF_SIZE"
  shows "main_loop s \<noteq> Inl OutOfBounds
       \<and> (\<forall>s'. main_loop s = Inr s' \<longrightarrow>
             cycles (afl s') = cycles (afl s) + min (offered (afl s)) (1000 - cycles (afl s))
             \<and> \<not> fst (AFL_LOOP 1000 (afl s')))
       \<and> (stdin s = [] \<longrightarrow> (\<exists>s'. main_loop s = Inr s'))"
proof -
  have "stdin s = [] \<longrightarrow> (\<exists>s'. main_loop s = Inr s')"
    using main_loop_returns [OF assms] by simp
  then show ?thesis
    using main_loop_in_bounds [OF assms] main_loop_cycles [of s] by blast
qed

theorem main_loop_bounded_witness:
  "length (input_buf \<lparr>input_buf = replicate 100 NUL, afl = \<lparr>cycles = 0, offered = 2000\<rparr>,
                       stdin = []\<rparr>) = MAX_BUF_SIZE
   \<and> stdin \<lparr>input_buf = replicate 100 NUL, afl = \<lparr>cycles = 0, offered = 2000\<rparr>,
            stdin = []\<rparr> = []
   \<and> (\<exists>s'. main_loop \<lparr>input_buf = replicate 100 NUL, afl = \<lparr>cycles = 0, offered = 2000\<rparr>,
                       stdin = []\<rparr> = Inr s'
          \<and> cycles (afl s') = 1000)"
  using main_loop_bounded
    [of "\<lparr>input_buf = replicate 100 NUL, afl = \<lparr>cycles = 0, offered = 2000\<rparr>, stdin = []\<rparr>"]
  by (auto simp add: MAX_BUF_SIZE_def)

end
